theory Spec2Isabelle
  imports Main "HOL-Library.Word"
begin

unbundle bit_operations_syntax

section \<open>Data model of the CBOR reader\<close>

text \<open>
  The reader works on a \<open>Uint8Array\<close>: a list of bytes. The names of the source are kept;
  a leading underscore, which an identifier here cannot have, is dropped
  (\<open>_parseUInt\<close> is \<open>parseUInt\<close>), and \<open>__parseByteString\<close>, the reader that takes the
  schema, is \<open>parseByteString_schema\<close>. The variables \<open>n_\<close> and \<open>map\<close> of the source are
  \<open>n'\<close> and \<open>map'\<close>. Memory and the call stack are taken to be unbounded.
\<close>

type_synonym byte = "8 word"

text \<open>\<open>CBORItem["type"]\<close>: the tags of the item variants.\<close>

datatype CBORType =
  T_uint | T_nint | T_bstr | T_tstr | T_array | T_map
  | T_tagged | T_boolean | T_null | T_undefined | T_float

text \<open>
  The \<open>size\<close> field of a byte or text string: the width of a definite length
  (\<open>SizeBytes\<close>, one of 0, 1, 2, 4, 8), or the array of (chunk length, width) pairs of an
  indefinite one.
\<close>

datatype bstr_size = Width nat | Chunks "(nat \<times> nat) list"

text \<open>
  The decoded item. The type \<open>'s\<close> is the type of decoded text; the value of a float is
  kept as the bytes read (the IEEE-754 bits, most significant byte first), since HOL has no
  floating-point numbers. The \<open>size\<close> of an array or map is \<open>None\<close> for \<open>null\<close>.
\<close>

datatype 's CBORItem =
  I_uint nat int
  | I_nint nat int
  | I_bstr bstr_size "byte list"
  | I_tstr bstr_size 's
  | I_array "nat option" "'s CBORItem list"
  | I_map "nat option" "('s CBORItem \<times> 's CBORItem) list"
  | I_tagged nat "'s CBORItem"
  | I_boolean bool
  | I_null
  | I_undefined
  | I_float nat "byte list"

text \<open>
  What a call can throw: the three strings the source throws itself, and the exceptions
  of the runtime (\<open>TypeError\<close> from \<open>BigInt(undefined)\<close> or from a method call on
  \<open>undefined\<close>, \<open>RangeError\<close> from a \<open>DataView\<close> read or a typed-array \<open>set\<close> out of
  bounds).
\<close>

datatype error =
  Expected_Received CBORType byte
  | Unknown_type_byte byte
  | Half_precision_unsupported
  | Unreachable
  | TypeError
  | RangeError

text \<open>
  The outcome of a call: it returns, it throws, or (for the readers that loop or recurse,
  which take a bound on the depth of their calls) the bound is used up.
\<close>

datatype 'a outcome = OutOfFuel | Throw error | Return 'a

definition then_do :: "'a outcome \<Rightarrow> ('a \<Rightarrow> 'b outcome) \<Rightarrow> 'b outcome" where
  "then_do r k = (case r of OutOfFuel \<Rightarrow> OutOfFuel | Throw e \<Rightarrow> Throw e | Return x \<Rightarrow> k x)"

section \<open>Primitives of the language\<close>

text \<open>\<open>stream[i]\<close>: the byte, or \<open>undefined\<close> (here \<open>None\<close>) out of range.\<close>

definition index :: "byte list \<Rightarrow> nat \<Rightarrow> byte option" where
  "index stream i = (if i < length stream then Some (stream ! i) else None)"

text \<open>\<open>x & m\<close> for a byte or \<open>undefined\<close>: \<open>undefined\<close> converts to 0.\<close>

definition band :: "byte option \<Rightarrow> byte \<Rightarrow> nat" where
  "band x m = (case x of None \<Rightarrow> 0 | Some b \<Rightarrow> unat (b AND m))"

text \<open>
  \<open>stream.slice(start)\<close> and \<open>stream.slice(start, end)\<close> for integral arguments: a negative
  index counts from the end, and both are clamped to the length.
\<close>

definition rel_index :: "int \<Rightarrow> nat \<Rightarrow> nat" where
  "rel_index k len = (if k < 0 then nat (max 0 (int len + k)) else min (nat k) len)"

definition slice1 :: "byte list \<Rightarrow> int \<Rightarrow> byte list" where
  "slice1 stream start = drop (rel_index start (length stream)) stream"

definition slice2 :: "byte list \<Rightarrow> int \<Rightarrow> int \<Rightarrow> byte list" where
  "slice2 stream start end =
     (let a = rel_index start (length stream); b = rel_index end (length stream)
      in take (b - a) (drop a stream))"

text \<open>
  The conversion of an integer to a \<open>number\<close> (a double): exact below \<open>2 ^ 53\<close>, and
  rounded to 53 significant bits, ties to even, from there on. \<open>Number(x)\<close> of a bigint
  and the \<open>i++\<close> of a loop counter both round this way.
\<close>

function bit_length :: "nat \<Rightarrow> nat" where
  "bit_length m = (if m = 0 then 0 else Suc (bit_length (m div 2)))"
  by pat_completeness auto
termination
  by (relation "measure (\<lambda>m. m)") auto

declare bit_length.simps [simp del]

definition round53 :: "nat \<Rightarrow> nat" where
  "round53 m =
     (let u = 2 ^ (bit_length m - 53); q = m div u; r = m mod u
      in if 2 * r < u \<or> (2 * r = u \<and> even q) then q * u else (q + 1) * u)"

definition toNumber :: "int \<Rightarrow> int" where
  "toNumber x = (if \<bar>x\<bar> < 2 ^ 53 then x else sgn x * int (round53 (nat \<bar>x\<bar>)))"

definition bigintToNum :: "int \<Rightarrow> int" where
  "bigintToNum x = toNumber x"

text \<open>\<open>error(expected, received)\<close> always throws; \<open>received.toString\<close> needs a number.\<close>

definition error :: "CBORType \<Rightarrow> byte option \<Rightarrow> 'a outcome" where
  "error expected received =
     (case received of None \<Rightarrow> Throw TypeError | Some b \<Rightarrow> Throw (Expected_Received expected b))"

section \<open>The length and value reader\<close>

text \<open>
  \<open>readBigInt\<close>: the loop \<open>for (i = 0; i < nBytes; i++)\<close> shifts the accumulator by 8 bits
  and adds \<open>BigInt(stream[i])\<close>, which throws a \<open>TypeError\<close> when \<open>stream[i]\<close> is
  \<open>undefined\<close>.
\<close>

function readBigInt_for :: "nat \<Rightarrow> nat \<Rightarrow> byte list \<Rightarrow> int \<Rightarrow> int outcome" where
  "readBigInt_for i nBytes stream x =
     (if i < nBytes
      then (case index stream i of
              None \<Rightarrow> Throw TypeError
            | Some b \<Rightarrow> readBigInt_for (i + 1) nBytes stream (push_bit 8 x + uint b))
      else Return x)"
  by pat_completeness auto
termination
  by (relation "measure (\<lambda>(i, nBytes, stream, x). nBytes - i)") auto

declare readBigInt_for.simps [simp del]

definition readBigInt :: "nat \<Rightarrow> byte list \<Rightarrow> int outcome" where
  "readBigInt nBytes stream = readBigInt_for 0 nBytes stream 0"

text \<open>\<open>_parseBigInt\<close> returns \<open>{size, value}\<close>, here a pair, and the rest of the stream.\<close>

definition parseBigInt :: "CBORType \<Rightarrow> byte list \<Rightarrow> ((nat \<times> int) \<times> byte list) outcome" where
  "parseBigInt schema stream0 =
     (let tag = index stream0 0;
          stream = slice1 stream0 1;
          len = band tag 0x1f
      in if \<not> (len \<ge> 0x00 \<and> len \<le> 0x1b) then error schema tag
         else if len < 0x18 then Return ((0, int len), stream)
         else (let nBytes = 2 ^ (len - 0x18)
               in then_do (readBigInt nBytes stream)
                    (\<lambda>v. Return ((nBytes, v), slice1 stream (int nBytes)))))"

definition parseUInt :: "byte list \<Rightarrow> ('s CBORItem \<times> byte list) outcome" where
  "parseUInt stream =
     then_do (parseBigInt T_uint stream) (\<lambda>(n, stream'). Return (I_uint (fst n) (snd n), stream'))"

definition parseNegInt :: "byte list \<Rightarrow> ('s CBORItem \<times> byte list) outcome" where
  "parseNegInt stream =
     then_do (parseBigInt T_nint stream)
       (\<lambda>(n, stream'). Return (I_nint (fst n) (- 1 - snd n), stream'))"

section \<open>Byte strings and text strings\<close>

text \<open>
  \<open>merged.set(item, offset)\<close> copies \<open>item\<close> into \<open>merged\<close> from \<open>offset\<close> on, and throws a
  \<open>RangeError\<close> when it does not fit.
\<close>

definition typed_set :: "byte list \<Rightarrow> byte list \<Rightarrow> nat \<Rightarrow> byte list outcome" where
  "typed_set target source offset =
     (if offset + length source > length target then Throw RangeError
      else Return (take offset target @ source @ drop (offset + length source) target))"

text \<open>
  \<open>_mergeChunks\<close>: the first \<open>forEach\<close> adds up the lengths, \<open>new Uint8Array(length)\<close> is
  that many zero bytes, and the second \<open>forEach\<close> copies each chunk to its offset.
\<close>

fun mergeChunks_copy :: "byte list list \<Rightarrow> byte list \<Rightarrow> nat \<Rightarrow> byte list outcome" where
  "mergeChunks_copy [] merged offset = Return merged"
| "mergeChunks_copy (item # chunks) merged offset =
     then_do (typed_set merged item offset)
       (\<lambda>merged'. mergeChunks_copy chunks merged' (offset + length item))"

definition mergeChunks :: "byte list list \<Rightarrow> byte list outcome" where
  "mergeChunks chunks =
     (let len = fold (\<lambda>item len. len + length item) chunks 0;
          merged = replicate len 0
      in mergeChunks_copy chunks merged 0)"

text \<open>
  \<open>__parseByteString\<close> returns a \<open>bstr\<close> item, here the pair of its \<open>size\<close> and \<open>value\<close>,
  and the rest of the stream. \<open>parseByteString_while\<close> is its loop
  \<open>while (stream[0] != 0xff)\<close>, with the variables \<open>stream\<close>, \<open>chunks\<close> and \<open>sizes\<close>; after the
  loop the item is returned with \<open>stream\<close> as the loop left it. The first argument bounds
  the depth of the calls.
\<close>

fun parseByteString_schema ::
    "nat \<Rightarrow> CBORType \<Rightarrow> byte list \<Rightarrow> ((bstr_size \<times> byte list) \<times> byte list) outcome"
  and parseByteString_while ::
    "nat \<Rightarrow> CBORType \<Rightarrow> byte list \<Rightarrow> byte list list \<Rightarrow> (nat \<times> nat) list
       \<Rightarrow> ((bstr_size \<times> byte list) \<times> byte list) outcome"
where
  "parseByteString_schema 0 schema stream = OutOfFuel"
| "parseByteString_schema (Suc fuel) schema stream =
     (let tag = index stream 0;
          len = band tag 0x1f
      in if \<not> ((len \<ge> 0x00 \<and> len \<le> 0x1b) \<or> len = 0x1f) then error schema tag
         else if len = 0x1f
         then parseByteString_while fuel schema (slice1 stream 1) [] []
         else then_do (parseBigInt schema stream)
                (\<lambda>(n, stream').
                   let n' = bigintToNum (snd n);
                       buffer = slice2 stream' 0 n';
                       stream'' = slice1 stream' n'
                   in Return ((Width (fst n), buffer), stream'')))"
| "parseByteString_while 0 schema stream chunks sizes = OutOfFuel"
| "parseByteString_while (Suc fuel) schema stream chunks sizes =
     (if index stream 0 \<noteq> Some 0xff
      then then_do (parseByteString_schema fuel schema stream)
             (\<lambda>(chunk, stream').
                parseByteString_while fuel schema stream' (chunks @ [snd chunk])
                  (sizes @ [(length (snd chunk),
                             (case fst chunk of Chunks cs \<Rightarrow> 8 | Width w \<Rightarrow> w))]))
      else then_do (mergeChunks chunks)
             (\<lambda>merged. Return ((Chunks sizes, merged), stream)))"

declare parseByteString_schema.simps [simp del] parseByteString_while.simps [simp del]

definition parseByteString :: "nat \<Rightarrow> byte list \<Rightarrow> ('s CBORItem \<times> byte list) outcome" where
  "parseByteString fuel stream =
     then_do (parseByteString_schema fuel T_bstr stream)
       (\<lambda>(bytes, stream'). Return (I_bstr (fst bytes) (snd bytes), stream'))"

text \<open>
  \<open>_parseTextString\<close>: \<open>dec\<close> stands for \<open>new TextDecoder().decode\<close>, a function of the
  platform that maps the bytes to the text and does not throw.
\<close>

definition parseTextString ::
    "(byte list \<Rightarrow> 's) \<Rightarrow> nat \<Rightarrow> byte list \<Rightarrow> ('s CBORItem \<times> byte list) outcome" where
  "parseTextString dec fuel stream =
     then_do (parseByteString_schema fuel T_tstr stream)
       (\<lambda>(bytes, stream'). Return (I_tstr (fst bytes) (dec (snd bytes)), stream'))"

section \<open>Floats\<close>

text \<open>
  \<open>_parseFloat\<close> reads through \<open>new DataView(stream.buffer)\<close>: the view covers the whole
  buffer that the array \<open>stream\<close> is a window of, whatever the offset and the length of the
  array, and \<open>getFloat32(1)\<close> and \<open>getFloat64(1)\<close> read from offset 1 of that buffer; they
  throw a \<open>RangeError\<close> when the buffer is too short. The argument \<open>buffer\<close> holds the bytes
  of \<open>stream.buffer\<close>.
\<close>

definition parseFloat :: "byte list \<Rightarrow> byte list \<Rightarrow> ('s CBORItem \<times> byte list) outcome" where
  "parseFloat buffer stream =
     (if index stream 0 = Some 0xf9 then Throw Half_precision_unsupported
      else if index stream 0 = Some 0xfa
      then (if length buffer < 5 then Throw RangeError
            else Return (I_float 4 (take 4 (drop 1 buffer)), slice1 stream 5))
      else if index stream 0 = Some 0xfb
      then (if length buffer < 9 then Throw RangeError
            else Return (I_float 8 (take 8 (drop 1 buffer)), slice1 stream 9))
      else Throw Unreachable)"

section \<open>The dispatcher, arrays, maps and tagged values\<close>

text \<open>\<open>throw "Unknown type byte: " + stream[0].toString(16)\<close>.\<close>

definition unknown_type_byte :: "byte option \<Rightarrow> 'a outcome" where
  "unknown_type_byte b0 =
     (case b0 of None \<Rightarrow> Throw TypeError | Some b \<Rightarrow> Throw (Unknown_type_byte b))"

text \<open>
  \<open>parse\<close> switches on \<open>stream[0] & 0xf0\<close>. Under \<open>0xf0\<close> the inner switch has no default
  and no \<open>break\<close> follows it, so a low nibble it does not list falls through to the
  \<open>default\<close> of the outer switch. The loops of \<open>_parseArray\<close> and \<open>_parseMap\<close> are
  \<open>parseArray_while\<close>, \<open>parseArray_for\<close>, \<open>parseMap_while\<close> and \<open>parseMap_for\<close>; the
  counter \<open>i\<close> and the bound \<open>n'\<close> of the \<open>for\<close> loops are numbers.

  \<open>parse\<close> takes, before the stream, the bytes of \<open>stream.buffer\<close>, which only \<open>_parseFloat\<close>
  looks at. The array a caller passes may be a window of a larger buffer. Every stream of
  an inner call comes out of \<open>slice\<close>, which returns an array that is the whole of a buffer
  of its own: there the buffer is the stream itself.
\<close>

function (sequential) parse ::
    "(byte list \<Rightarrow> 's) \<Rightarrow> nat \<Rightarrow> byte list \<Rightarrow> byte list \<Rightarrow> ('s CBORItem \<times> byte list) outcome"
  and parseArray ::
    "(byte list \<Rightarrow> 's) \<Rightarrow> nat \<Rightarrow> byte list \<Rightarrow> ('s CBORItem \<times> byte list) outcome"
  and parseArray_while ::
    "(byte list \<Rightarrow> 's) \<Rightarrow> nat \<Rightarrow> byte list \<Rightarrow> 's CBORItem list
       \<Rightarrow> ('s CBORItem list \<times> byte list) outcome"
  and parseArray_for ::
    "(byte list \<Rightarrow> 's) \<Rightarrow> nat \<Rightarrow> int \<Rightarrow> int \<Rightarrow> byte list \<Rightarrow> 's CBORItem list
       \<Rightarrow> ('s CBORItem list \<times> byte list) outcome"
  and parseMap ::
    "(byte list \<Rightarrow> 's) \<Rightarrow> nat \<Rightarrow> byte list \<Rightarrow> ('s CBORItem \<times> byte list) outcome"
  and parseMap_while ::
    "(byte list \<Rightarrow> 's) \<Rightarrow> nat \<Rightarrow> byte list \<Rightarrow> ('s CBORItem \<times> 's CBORItem) list
       \<Rightarrow> (('s CBORItem \<times> 's CBORItem) list \<times> byte list) outcome"
  and parseMap_for ::
    "(byte list \<Rightarrow> 's) \<Rightarrow> nat \<Rightarrow> int \<Rightarrow> int \<Rightarrow> byte list \<Rightarrow> ('s CBORItem \<times> 's CBORItem) list
       \<Rightarrow> (('s CBORItem \<times> 's CBORItem) list \<times> byte list) outcome"
  and parseTagged ::
    "(byte list \<Rightarrow> 's) \<Rightarrow> nat \<Rightarrow> byte list \<Rightarrow> ('s CBORItem \<times> byte list) outcome"
where
  "parse dec 0 buffer stream = OutOfFuel"
| "parse dec (Suc fuel) buffer stream =
     (let b0 = index stream 0;
          hi = band b0 0xf0
      in if hi = 0x00 \<or> hi = 0x10 then parseUInt stream
         else if hi = 0x20 \<or> hi = 0x30 then parseNegInt stream
         else if hi = 0x40 \<or> hi = 0x50 then parseByteString fuel stream
         else if hi = 0x60 \<or> hi = 0x70 then parseTextString dec fuel stream
         else if hi = 0x80 \<or> hi = 0x90 then parseArray dec fuel stream
         else if hi = 0xa0 \<or> hi = 0xb0 then parseMap dec fuel stream
         else if hi = 0xc0 \<or> hi = 0xd0 then parseTagged dec fuel stream
         else if hi = 0xf0
         then (let lo = band b0 0x0f
               in if lo = 0x04 then Return (I_boolean False, slice1 stream 1)
                  else if lo = 0x05 then Return (I_boolean True, slice1 stream 1)
                  else if lo = 0x06 then Return (I_null, slice1 stream 1)
                  else if lo = 0x07 then Return (I_undefined, slice1 stream 1)
                  else if lo = 0x09 \<or> lo = 0x0a \<or> lo = 0x0b then parseFloat buffer stream
                  else unknown_type_byte b0)
         else unknown_type_byte b0)"
| "parseArray dec 0 stream = OutOfFuel"
| "parseArray dec (Suc fuel) stream =
     (let tag = index stream 0;
          len = band tag 0x1f
      in if \<not> ((len \<ge> 0x00 \<and> len \<le> 0x1b) \<or> len = 0x1f) then error T_array tag
         else if len = 0x1f
         then then_do (parseArray_while dec fuel (slice1 stream 1) [])
                (\<lambda>(array, stream'). Return (I_array None array, stream'))
         else then_do (parseBigInt T_array stream)
                (\<lambda>(n, stream').
                   let n' = bigintToNum (snd n)
                   in then_do (parseArray_for dec fuel 0 n' stream' [])
                        (\<lambda>(array, stream''). Return (I_array (Some (fst n)) array, stream''))))"
| "parseArray_while dec 0 stream array = OutOfFuel"
| "parseArray_while dec (Suc fuel) stream array =
     (if index stream 0 \<noteq> Some 0xff
      then then_do (parse dec fuel stream stream)
             (\<lambda>(item, stream'). parseArray_while dec fuel stream' (array @ [item]))
      else Return (array, stream))"
| "parseArray_for dec 0 i n' stream array = OutOfFuel"
| "parseArray_for dec (Suc fuel) i n' stream array =
     (if i < n'
      then then_do (parse dec fuel stream stream)
             (\<lambda>(item, stream').
                parseArray_for dec fuel (toNumber (i + 1)) n' stream' (array @ [item]))
      else Return (array, stream))"
| "parseMap dec 0 stream = OutOfFuel"
| "parseMap dec (Suc fuel) stream =
     (let tag = index stream 0;
          len = band tag 0x1f
      in if \<not> ((len \<ge> 0x00 \<and> len \<le> 0x1b) \<or> len = 0x1f) then error T_map tag
         else if len = 0x1f
         then then_do (parseMap_while dec fuel (slice1 stream 1) [])
                (\<lambda>(map', stream'). Return (I_map None map', stream'))
         else then_do (parseBigInt T_map stream)
                (\<lambda>(n, stream').
                   let n' = bigintToNum (snd n)
                   in then_do (parseMap_for dec fuel 0 n' stream' [])
                        (\<lambda>(map', stream''). Return (I_map (Some (fst n)) map', stream''))))"
| "parseMap_while dec 0 stream map' = OutOfFuel"
| "parseMap_while dec (Suc fuel) stream map' =
     (if index stream 0 \<noteq> Some 0xff
      then then_do (parse dec fuel stream stream)
             (\<lambda>(key, stream').
                then_do (parse dec fuel stream' stream')
                  (\<lambda>(val, stream''). parseMap_while dec fuel stream'' (map' @ [(key, val)])))
      else Return (map', stream))"
| "parseMap_for dec 0 i n' stream map' = OutOfFuel"
| "parseMap_for dec (Suc fuel) i n' stream map' =
     (if i < n'
      then then_do (parse dec fuel stream stream)
             (\<lambda>(key, stream').
                then_do (parse dec fuel stream' stream')
                  (\<lambda>(val, stream'').
                     parseMap_for dec fuel (toNumber (i + 1)) n' stream'' (map' @ [(key, val)])))
      else Return (map', stream))"
| "parseTagged dec 0 stream = OutOfFuel"
| "parseTagged dec (Suc fuel) stream =
     (let tag = index stream 0;
          stream1 = slice1 stream 1;
          tagValue = band tag 0x1f
      in then_do (parse dec fuel stream1 stream1)
           (\<lambda>(inner, stream'). Return (I_tagged tagValue inner, stream')))"

  by pat_completeness auto

text \<open>Every call passes on a smaller bound, whichever reader it enters.\<close>

termination
  by (relation "measure
        (case_sum
          (case_sum (case_sum (\<lambda>p. fst (snd p)) (\<lambda>p. fst (snd p)))
                    (case_sum (\<lambda>p. fst (snd p)) (\<lambda>p. fst (snd p))))
          (case_sum (case_sum (\<lambda>p. fst (snd p)) (\<lambda>p. fst (snd p)))
                    (case_sum (\<lambda>p. fst (snd p)) (\<lambda>p. fst (snd p)))))")
     auto

declare parse.simps [simp del] parseArray.simps [simp del] parseArray_while.simps [simp del]
  parseArray_for.simps [simp del] parseMap.simps [simp del] parseMap_while.simps [simp del]
  parseMap_for.simps [simp del] parseTagged.simps [simp del]

section \<open>Valid encodings\<close>

text \<open>
  The encodings the format defines, against which the reader is checked. A head is the
  initial byte, the major type in its high three bits and the additional information in
  its low five, followed by the \<open>w\<close> bytes of the value, most significant first
  (\<open>w = 0\<close>: the value is the additional information itself).
\<close>

primrec be_bytes :: "nat \<Rightarrow> nat \<Rightarrow> byte list" where
  "be_bytes 0 v = []"
| "be_bytes (Suc w) v = be_bytes w (v div 256) @ [of_nat (v mod 256)]"

definition additional_info :: "nat \<Rightarrow> nat \<Rightarrow> nat" where
  "additional_info w v =
     (if w = 0 then v else if w = 1 then 0x18 else if w = 2 then 0x19
      else if w = 4 then 0x1a else 0x1b)"

definition valid_width :: "nat \<Rightarrow> nat \<Rightarrow> bool" where
  "valid_width w v \<longleftrightarrow> (w = 0 \<and> v < 24) \<or> ((w = 1 \<or> w = 2 \<or> w = 4 \<or> w = 8) \<and> v < 256 ^ w)"

definition head_byte :: "nat \<Rightarrow> nat \<Rightarrow> byte" where
  "head_byte mt ai = of_nat (mt * 32 + ai)"

definition encode_head :: "nat \<Rightarrow> nat \<Rightarrow> nat \<Rightarrow> byte list" where
  "encode_head mt w v = head_byte mt (additional_info w v) # be_bytes w v"

text \<open>The least width that can hold a value below \<open>2 ^ 64\<close>.\<close>

definition minimal_width :: "nat \<Rightarrow> nat" where
  "minimal_width v =
     (if v < 24 then 0 else if v < 256 then 1 else if v < 65536 then 2
      else if v < 4294967296 then 4 else 8)"

text \<open>
  A chunk of an indefinite-length string is a pair of the width of its length field and
  its bytes: its encoding is the head of a definite-length string followed by the bytes,
  and the entry the reader records for it is its length and that width.
\<close>

definition encode_chunk :: "nat \<Rightarrow> nat \<times> byte list \<Rightarrow> byte list" where
  "encode_chunk mt wc = encode_head mt (fst wc) (length (snd wc)) @ snd wc"

definition valid_chunk :: "nat \<times> byte list \<Rightarrow> bool" where
  "valid_chunk wc \<longleftrightarrow> valid_width (fst wc) (length (snd wc)) \<and> length (snd wc) < 2 ^ 53"

definition chunk_size :: "nat \<times> byte list \<Rightarrow> nat \<times> nat" where
  "chunk_size wc = (length (snd wc), fst wc)"

text \<open>
  The bound on the depth of the calls is not part of the source. Two outcomes are related
  by \<open>fuel_le\<close> when the first ran out of fuel or both are the same: a larger bound may
  only turn \<open>OutOfFuel\<close> into a result, never change a result.
\<close>

definition fuel_le :: "'a outcome \<Rightarrow> 'a outcome \<Rightarrow> bool" where
  "fuel_le r r' \<longleftrightarrow> r = OutOfFuel \<or> r' = r"

text \<open>
  \<open>decodes_pairs dec fuel s kvs s'\<close>: from the stream \<open>s\<close>, decoding a key, then a value,
  then the next key, and so on, each with the bound \<open>fuel\<close>, yields the pairs \<open>kvs\<close> in
  this order and leaves \<open>s'\<close>.
\<close>

inductive decodes_pairs ::
    "(byte list \<Rightarrow> 's) \<Rightarrow> nat \<Rightarrow> byte list \<Rightarrow> ('s CBORItem \<times> 's CBORItem) list \<Rightarrow> byte list \<Rightarrow> bool"
  for dec :: "byte list \<Rightarrow> 's" and fuel :: nat
where
  decodes_pairs_Nil: "decodes_pairs dec fuel s [] s"
| decodes_pairs_Cons:
    "parse dec fuel s s = Return (key, sk) \<Longrightarrow> parse dec fuel sk sk = Return (val, sv)
     \<Longrightarrow> decodes_pairs dec fuel sv kvs rest
     \<Longrightarrow> decodes_pairs dec fuel s ((key, val) # kvs) rest"

section \<open>Bytes, slices and numbers\<close>

lemma and_0x1f_eq: "(x :: byte) AND 0x1f = take_bit 5 x"
proof -
  have "(0x1f :: byte) = mask 5" by (simp add: mask_eq_exp_minus_1)
  then show ?thesis by (simp add: take_bit_eq_mask)
qed

lemma bit240: "n < 8 \<Longrightarrow> bit (240 :: int) n \<longleftrightarrow> 4 \<le> n"
  by (auto simp: bit_numeral_rec split: nat.splits)

lemma and_0xf0_eq: "(x :: byte) AND 0xf0 = push_bit 4 (drop_bit 4 x)"
  by (rule bit_word_eqI) (auto simp: bit_simps bit240)

lemma and_0x0f_eq: "(x :: byte) AND 0x0f = take_bit 4 x"
proof -
  have "(0x0f :: byte) = mask 4" by (simp add: mask_eq_exp_minus_1)
  then show ?thesis by (simp add: take_bit_eq_mask)
qed

lemma unat_and_0x1f: "unat ((x :: byte) AND 0x1f) = unat x mod 32"
  by (simp only: and_0x1f_eq unsigned_take_bit_eq) (simp add: take_bit_eq_mod)

lemma unat_and_0x0f: "unat ((x :: byte) AND 0x0f) = unat x mod 16"
  by (simp only: and_0x0f_eq unsigned_take_bit_eq) (simp add: take_bit_eq_mod)

lemma unat_and_0xf0: "unat ((x :: byte) AND 0xf0) = 16 * (unat x div 16)"
proof -
  have "unat x < 256" using unsigned_less [of x] by simp
  then have "16 * (unat x div 16) < 256" by simp
  then show ?thesis
    by (simp only: and_0xf0_eq unsigned_push_bit_eq unat_drop_bit_eq)
       (simp add: push_bit_eq_mult drop_bit_eq_div take_bit_eq_mod)
qed


lemma then_do_simps [simp]:
  "then_do (Return x) k = k x"
  "then_do (Throw e) k = Throw e"
  "then_do OutOfFuel k = OutOfFuel"
  by (simp_all add: then_do_def)

lemma index_simps [simp]:
  "index [] i = None"
  "index (b # s) 0 = Some b"
  by (simp_all add: index_def)

lemma index_append_mid: "length pre = i \<Longrightarrow> index (pre @ b # s) i = Some b"
  by (auto simp: index_def)

lemma slice1_nonneg: "0 \<le> k \<Longrightarrow> slice1 s k = drop (nat k) s"
  by (cases "nat k \<le> length s") (simp_all add: slice1_def rel_index_def min_def)

lemma slice1_Cons_1 [simp]: "slice1 (b # s) 1 = s"
  by (simp add: slice1_nonneg)

lemma slice1_Nil [simp]: "slice1 [] k = []"
  by (simp add: slice1_def)

lemma slice2_0: "0 \<le> k \<Longrightarrow> slice2 s 0 k = take (nat k) s"
  by (cases "nat k \<le> length s") (simp_all add: slice2_def rel_index_def min_def)

lemma toNumber_exact: "\<bar>x\<bar> < 2 ^ 53 \<Longrightarrow> toNumber x = x"
  by (simp add: toNumber_def)

lemma length_be_bytes [simp]: "length (be_bytes w v) = w"
  by (induction w arbitrary: v) simp_all

lemma readBigInt_for_fold:
  "length pre = i \<Longrightarrow> i + length bs = n \<Longrightarrow>
   readBigInt_for i n (pre @ bs @ rest) x = Return (fold (\<lambda>b x. push_bit 8 x + uint b) bs x)"
proof (induction bs arbitrary: i pre x)
  case Nil
  then show ?case by (simp add: readBigInt_for.simps)
next
  case (Cons b bs)
  have "readBigInt_for (i + 1) n ((pre @ [b]) @ bs @ rest) (push_bit 8 x + uint b)
        = Return (fold (\<lambda>b x. push_bit 8 x + uint b) bs (push_bit 8 x + uint b))"
    using Cons.prems by (intro Cons.IH) simp_all
  then show ?case
    using Cons.prems
    by (subst readBigInt_for.simps) (simp add: index_append_mid)
qed

lemma uint_byte_of_nat: "k < 256 \<Longrightarrow> uint (of_nat k :: byte) = int k"
  by (simp add: unsigned_of_nat take_bit_eq_mod)

lemma fold_be_bytes:
  "fold (\<lambda>b x. push_bit 8 x + uint b) (be_bytes w v) x = x * 256 ^ w + int (v mod 256 ^ w)"
proof (induction w arbitrary: v)
  case 0
  then show ?case by simp
next
  case (Suc w)
  let ?f = "\<lambda>(b :: byte) (x :: int). push_bit 8 x + uint b"
  have m: "v mod (256 * 256 ^ w) = 256 * (v div 256 mod 256 ^ w) + v mod 256"
    by (rule mod_mult2_eq)
  have "fold ?f (be_bytes (Suc w) v) x
        = ?f (of_nat (v mod 256)) (fold ?f (be_bytes w (v div 256)) x)"
    by simp
  also have "\<dots> = ?f (of_nat (v mod 256)) (x * 256 ^ w + int (v div 256 mod 256 ^ w))"
    by (simp only: Suc.IH)
  also have "\<dots> = (x * 256 ^ w + int (v div 256 mod 256 ^ w)) * 256 + int (v mod 256)"
    by (simp add: uint_byte_of_nat push_bit_eq_mult)
  also have "\<dots> = x * 256 ^ Suc w + int (v mod 256 ^ Suc w)"
    using m by (simp add: algebra_simps)
  finally show ?case .
qed

lemma readBigInt_be_bytes:
  "v < 256 ^ w \<Longrightarrow> readBigInt w (be_bytes w v @ rest) = Return (int v)"
  using readBigInt_for_fold [of "[]" 0 "be_bytes w v" w rest 0]
  by (simp add: readBigInt_def fold_be_bytes)


lemma unat_head:
  assumes "mt < 8" and "ai < 32"
  shows "unat (head_byte mt ai) = mt * 32 + ai"
proof -
  have "mt * 32 + ai < 256" using assms by arith
  then show ?thesis by (simp only: head_byte_def unat_of_nat) simp
qed

lemma band_head_1f:
  assumes "mt < 8" and "ai < 32"
  shows "band (Some (head_byte mt ai)) 0x1f = ai"
proof -
  have "band (Some (head_byte mt ai)) 0x1f = (mt * 32 + ai) mod 32"
    by (simp only: band_def option.case unat_and_0x1f unat_head [OF assms])
  then show ?thesis using assms by simp
qed

lemma band_head_f0:
  assumes "mt < 8" and "ai < 32"
  shows "band (Some (head_byte mt ai)) 0xf0 = 16 * (2 * mt + ai div 16)"
proof -
  have "(mt * 32 + ai) div 16 = 2 * mt + ai div 16"
    by presburger
  then show ?thesis
    by (simp only: band_def option.case unat_and_0xf0 unat_head [OF assms])
qed

lemma additional_info_less: "valid_width w v \<Longrightarrow> additional_info w v < 28"
  by (auto simp: valid_width_def additional_info_def)

lemma parseBigInt_encode_head:
  assumes "valid_width w v" and "mt < 8"
  shows "parseBigInt schema (encode_head mt w v @ rest) = Return ((w, int v), rest)"
proof -
  have ai: "additional_info w v < 32"
    using additional_info_less [OF assms(1)] by simp
  have len: "band (Some (head_byte mt (additional_info w v))) 0x1f = additional_info w v"
    using assms(2) ai by (rule band_head_1f)
  consider "w = 0" "v < 24" | "w = 1" "v < 256 ^ 1" | "w = 2" "v < 256 ^ 2"
    | "w = 4" "v < 256 ^ 4" | "w = 8" "v < 256 ^ 8"
    using assms(1) by (auto simp: valid_width_def)
  then show ?thesis
  proof cases
    case 1
    then show ?thesis
      using len by (simp add: parseBigInt_def encode_head_def additional_info_def)
  next
    case 2
    then show ?thesis
      using len readBigInt_be_bytes [of v 1 rest]
      by (simp add: parseBigInt_def encode_head_def additional_info_def slice1_nonneg)
  next
    case 3
    then show ?thesis
      using len readBigInt_be_bytes [of v 2 rest]
      by (simp add: parseBigInt_def encode_head_def additional_info_def slice1_nonneg)
  next
    case 4
    then show ?thesis
      using len readBigInt_be_bytes [of v 4 rest]
      by (simp add: parseBigInt_def encode_head_def additional_info_def slice1_nonneg)
  next
    case 5
    then show ?thesis
      using len readBigInt_be_bytes [of v 8 rest]
      by (simp add: parseBigInt_def encode_head_def additional_info_def slice1_nonneg)
  qed
qed

section \<open>Heads under the dispatcher\<close>

lemma index_encode_head [simp]:
  "index (encode_head mt w v @ rest) 0 = Some (head_byte mt (additional_info w v))"
  by (simp add: encode_head_def)

lemma length_encode_head [simp]: "length (encode_head mt w v) = 1 + w"
  by (simp add: encode_head_def)

lemma valid_minimal_width: "v < 2 ^ 64 \<Longrightarrow> valid_width (minimal_width v) v"
  by (simp add: valid_width_def minimal_width_def)

lemma hi_nibble_head:
  assumes "valid_width w v" and "mt < 8"
  shows "band (Some (head_byte mt (additional_info w v))) 0xf0 = 32 * mt
       \<or> band (Some (head_byte mt (additional_info w v))) 0xf0 = 32 * mt + 16"
proof -
  have ai: "additional_info w v < 32"
    using additional_info_less [OF assms(1)] by simp
  have "additional_info w v div 16 = 0 \<or> additional_info w v div 16 = 1"
    using ai by auto
  then show ?thesis
    unfolding band_head_f0 [OF assms(2) ai] by auto
qed

lemma parse_uint_head:
  assumes "valid_width w v"
  shows "parse dec (Suc fuel) buffer (encode_head 0 w v @ rest)
         = Return (I_uint w (int v), rest)"
  using hi_nibble_head [OF assms, of 0] parseBigInt_encode_head [OF assms, of 0 T_uint rest]
  by (auto simp: parse.simps parseUInt_def Let_def)

lemma parse_nint_head:
  assumes "valid_width w m"
  shows "parse dec (Suc fuel) buffer (encode_head 1 w m @ rest)
         = Return (I_nint w (- 1 - int m), rest)"
  using hi_nibble_head [OF assms, of 1] parseBigInt_encode_head [OF assms, of 1 T_nint rest]
  by (auto simp: parse.simps parseNegInt_def Let_def)

section \<open>Merged chunks and definite-length byte strings\<close>

lemma fold_lengths: "fold (\<lambda>item len. len + length item) chunks k = k + length (concat chunks)"
  by (induction chunks arbitrary: k) simp_all

lemma typed_set_fits:
  "length item \<le> length zs \<Longrightarrow>
   typed_set (pre @ zs) item (length pre) = Return ((pre @ item) @ drop (length item) zs)"
  by (simp add: typed_set_def)

lemma mergeChunks_copy_concat:
  "length (concat chunks) \<le> length zs \<Longrightarrow>
   mergeChunks_copy chunks (pre @ zs) (length pre)
     = Return (pre @ concat chunks @ drop (length (concat chunks)) zs)"
proof (induction chunks arbitrary: pre zs)
  case Nil
  then show ?case by simp
next
  case (Cons item chunks)
  have fits: "length item \<le> length zs"
    using Cons.prems by simp
  have rest: "length (concat chunks) \<le> length (drop (length item) zs)"
    using Cons.prems by simp
  have "mergeChunks_copy chunks ((pre @ item) @ drop (length item) zs) (length (pre @ item))
        = Return ((pre @ item) @ concat chunks
                  @ drop (length (concat chunks)) (drop (length item) zs))"
    using rest by (rule Cons.IH)
  then show ?case
    by (simp add: typed_set_fits [OF fits] add.commute)
qed

lemma mergeChunks_concat: "mergeChunks chunks = Return (concat chunks)"
  using mergeChunks_copy_concat [of chunks "replicate (length (concat chunks)) 0" "[]"]
  by (simp add: mergeChunks_def fold_lengths)

lemma bigintToNum_exact: "n < 2 ^ 53 \<Longrightarrow> bigintToNum (int n) = int n"
proof -
  assume "n < 2 ^ 53"
  then have "int n < 2 ^ 53"
    by (metis of_nat_less_iff of_nat_numeral of_nat_power)
  then show ?thesis by (simp add: bigintToNum_def toNumber_exact)
qed

lemma low_bits_head:
  assumes "valid_width w v" and "mt < 8"
  shows "band (Some (head_byte mt (additional_info w v))) 0x1f = additional_info w v"
  using assms(2) additional_info_less [OF assms(1)] by (intro band_head_1f) simp_all

lemma parseByteString_schema_definite:
  assumes "valid_width w n" and "mt < 8"
  shows "parseByteString_schema (Suc fuel) schema (encode_head mt w n @ s)
         = Return ((Width w, slice2 s 0 (bigintToNum (int n))), slice1 s (bigintToNum (int n)))"
  using additional_info_less [OF assms(1)]
  by (simp add: parseByteString_schema.simps low_bits_head [OF assms]
        parseBigInt_encode_head [OF assms] Let_def)

lemma parseByteString_schema_exact:
  assumes "valid_width w n" and "mt < 8" and "n < 2 ^ 53" and "length buf = n"
  shows "parseByteString_schema (Suc fuel) schema (encode_head mt w n @ buf @ rest)
         = Return ((Width w, buf), rest)"
  using assms(4)
  by (simp add: parseByteString_schema_definite [OF assms(1,2)] bigintToNum_exact [OF assms(3)]
        slice2_0 slice1_nonneg)

lemma parse_bstr_head:
  assumes "valid_width w n"
  shows "parse dec (Suc fuel) buffer (encode_head 2 w n @ s)
         = parseByteString fuel (encode_head 2 w n @ s)"
  using hi_nibble_head [OF assms, of 2] by (auto simp: parse.simps Let_def)

text \<open>
  C3. A definite-length byte string of declared length \<open>n\<close>, encoded with a valid width
  \<open>w\<close> and followed by its \<open>n\<close> bytes, decodes to a \<open>bstr\<close> item whose buffer is exactly
  those \<open>n\<close> bytes and whose size is \<open>w\<close>. The call consumes the head, \<open>1 + w\<close> bytes,
  and the \<open>n\<close> bytes of the buffer: the rest returned is what followed them. The length is
  below \<open>2 ^ 53\<close>, as the length of every typed array is.
\<close>

theorem definite_byte_string_decodes:
  assumes "valid_width w n" and "length buf = n" and "n < 2 ^ 53"
  shows "parse dec (Suc (Suc fuel)) buffer (encode_head 2 w n @ buf @ rest)
           = Return (I_bstr (Width w) buf, rest)
         \<and> length buf = n
         \<and> length (encode_head 2 w n @ buf @ rest) = (1 + w) + n + length rest"
  using assms(2)
  by (simp add: parse_bstr_head [OF assms(1)] parseByteString_def
        parseByteString_schema_exact [OF assms(1) _ assms(3,2)])

theorem definite_byte_string_decodes_witness:
  "valid_width 0 3 \<and> length [0x01 :: byte, 0x02, 0x03] = 3 \<and> (3 :: nat) < 2 ^ 53
   \<and> parse (id :: byte list \<Rightarrow> byte list) (Suc (Suc 0))
         [0x43, 0x01, 0x02, 0x03, 0x09]
         [0x43, 0x01, 0x02, 0x03, 0x09]
       = Return (I_bstr (Width 0) [0x01, 0x02, 0x03], [0x09])"
proof -
  have h1: "valid_width 0 3" by (simp add: valid_width_def)
  have h2: "length [0x01 :: byte, 0x02, 0x03] = 3" by simp
  have h3: "(3 :: nat) < 2 ^ 53" by simp
  have e: "encode_head 2 0 3 = [0x43]"
    by (simp add: encode_head_def head_byte_def additional_info_def)
  show ?thesis
    using h1 h3 definite_byte_string_decodes [OF h1 h2 h3, where dec = id and fuel = 0
        and buffer = "[0x43, 0x01, 0x02, 0x03, 0x09]" and rest = "[0x09]", unfolded e]
    by simp
qed

section \<open>Unsigned and negative integers\<close>

text \<open>
  C5. An unsigned integer \<open>v\<close> below \<open>2 ^ 64\<close>, encoded with its minimal width \<open>w\<close>, decodes
  to the item \<open>{type: uint, size: w, value: v}\<close>; the value is read most significant byte
  first into an unbounded integer, and the call consumes exactly \<open>1 + w\<close> bytes: the rest
  returned is what followed the head.
\<close>

theorem uint_minimal_width_decodes:
  assumes "v < 2 ^ 64"
  shows "parse dec (Suc fuel) buffer (encode_head 0 (minimal_width v) v @ rest)
           = Return (I_uint (minimal_width v) (int v), rest)
         \<and> length (encode_head 0 (minimal_width v) v @ rest) = 1 + minimal_width v + length rest"
  using parse_uint_head [OF valid_minimal_width [OF assms]] by simp

theorem uint_minimal_width_decodes_witness:
  "(500 :: nat) < 2 ^ 64
   \<and> parse (id :: byte list \<Rightarrow> byte list) (Suc 0)
         [0x19, 0x01, 0xf4, 0x07]
         [0x19, 0x01, 0xf4, 0x07]
       = Return (I_uint 2 500, [0x07])
   \<and> length [0x19 :: byte, 0x01, 0xf4, 0x07] = 1 + 2 + length [0x07 :: byte]"
proof -
  have h: "(500 :: nat) < 2 ^ 64" by simp
  have w: "minimal_width 500 = 2" by (simp add: minimal_width_def)
  have e: "encode_head 0 2 500 = [0x19, 0x01, 0xf4]"
    by (simp add: encode_head_def head_byte_def additional_info_def numeral_2_eq_2)
  show ?thesis
    using h uint_minimal_width_decodes [OF h, where dec = id and fuel = 0
        and buffer = "[0x19, 0x01, 0xf4, 0x07]" and rest = "[0x07]", unfolded w e]
    by simp
qed

text \<open>
  C7. A negative integer whose encoded magnitude is \<open>m\<close>, in any valid width \<open>w\<close>, decodes
  to an item of type \<open>nint\<close> with value \<open>-1 - m\<close> and size \<open>w\<close>.
\<close>

theorem nint_value_is_minus_one_minus_magnitude:
  assumes "valid_width w m"
  shows "parse dec (Suc fuel) buffer (encode_head 1 w m @ rest)
           = Return (I_nint w (- 1 - int m), rest)"
  using assms by (rule parse_nint_head)

theorem nint_value_is_minus_one_minus_magnitude_witness:
  "valid_width 1 200
   \<and> parse (id :: byte list \<Rightarrow> byte list) (Suc 0) [0x38, 0xc8, 0x07] [0x38, 0xc8, 0x07]
       = Return (I_nint 1 (- 201), [0x07])"
proof -
  have h: "valid_width 1 200" by (simp add: valid_width_def)
  have e: "encode_head 1 1 200 = [0x38, 0xc8]"
    by (simp add: encode_head_def head_byte_def additional_info_def)
  show ?thesis
    using h nint_value_is_minus_one_minus_magnitude [OF h, where dec = id and fuel = 0
        and buffer = "[0x38, 0xc8, 0x07]" and rest = "[0x07]", unfolded e]
    by simp
qed

section \<open>Simple values and floats\<close>

text \<open>
  C9. When the first byte is \<open>0xf9\<close>, the marker of a half-precision float, decoding fails
  with the error "Half-precision floats are unsupported", whatever bytes follow; this error
  is neither the malformed-length error nor the unknown-type-byte error.
\<close>

theorem half_float_is_unsupported:
  "parse dec (Suc fuel) buffer (0xf9 # s) = Throw Half_precision_unsupported
   \<and> Half_precision_unsupported \<noteq> Expected_Received t b
   \<and> Half_precision_unsupported \<noteq> Unknown_type_byte b"
  by (simp add: parse.simps band_def parseFloat_def)

text \<open>
  C10. When the high nibble of the first byte is \<open>0xf\<close> and the low nibble is none of
  4, 5, 6, 7, 9, 10, 11, \<open>parse\<close> throws "Unknown type byte" with that byte, whatever
  bytes follow: the same error as for the high nibble \<open>0xe\<close>, which no case of the
  dispatcher lists.
\<close>

theorem unlisted_simple_value_is_unknown_type_byte:
  assumes "b AND 0xf0 = 0xf0"
    and "unat (b AND 0x0f) \<notin> {0x04, 0x05, 0x06, 0x07, 0x09, 0x0a, 0x0b}"
  shows "parse dec (Suc fuel) buffer (b # s) = Throw (Unknown_type_byte b)
         \<and> parse dec (Suc fuel) buffer (0xe0 # s) = Throw (Unknown_type_byte 0xe0)"
  using assms by (simp add: parse.simps band_def unknown_type_byte_def)

theorem unlisted_simple_value_is_unknown_type_byte_witness:
  "(0xf8 :: byte) AND 0xf0 = 0xf0
   \<and> unat ((0xf8 :: byte) AND 0x0f) \<notin> {0x04, 0x05, 0x06, 0x07, 0x09, 0x0a, 0x0b}
   \<and> parse (id :: byte list \<Rightarrow> byte list) (Suc 0)
         [0xf8, 0x01]
         [0xf8, 0x01] = Throw (Unknown_type_byte 0xf8)"
proof -
  have h1: "(0xf8 :: byte) AND 0xf0 = 0xf0" by simp
  have h2: "unat ((0xf8 :: byte) AND 0x0f) \<notin> {0x04, 0x05, 0x06, 0x07, 0x09, 0x0a, 0x0b}" by simp
  show ?thesis
    using h1 h2 unlisted_simple_value_is_unknown_type_byte [OF h1 h2, where dec = id and fuel = 0
        and buffer = "[0xf8, 0x01]" and s = "[0x01]"]
    by simp
qed

section \<open>The break marker of indefinite-length arrays and maps\<close>

text \<open>
  C1. The loop of an indefinite-length array or map stops when the next byte is the break
  marker \<open>0xff\<close>, but nothing after the loop removes that byte: the empty indefinite array
  \<open>0x9f 0xff\<close> decodes to \<open>{type: array, size: null, value: []}\<close> and the rest returned
  still begins with the break byte, so 1 byte is consumed, not 2; the same holds for the
  empty indefinite map \<open>0xbf 0xff\<close>. Inside a definite array of two items the break byte
  left behind is then read as the next item and rejected.
\<close>

theorem indefinite_break_is_not_consumed:
  "parse dec (Suc (Suc (Suc fuel))) buffer (0x9f # 0xff # rest)
     = Return (I_array None [], 0xff # rest)
   \<and> parse dec (Suc (Suc (Suc fuel))) buffer (0xbf # 0xff # rest)
     = Return (I_map None [], 0xff # rest)
   \<and> parse dec (Suc (Suc (Suc (Suc (Suc (Suc fuel)))))) buffer [0x82, 0x9f, 0xff, 0x01]
       = Throw (Unknown_type_byte 0xff)"
  by (simp add: parse.simps parseArray.simps parseArray_while.simps parseArray_for.simps
        parseMap.simps parseMap_while.simps band_def parseBigInt_def bigintToNum_def
        toNumber_def unknown_type_byte_def)

section \<open>Truncated input\<close>

lemma bit_length_lower: "0 < m \<Longrightarrow> 2 ^ (bit_length m - 1) \<le> m"
proof (induction m rule: bit_length.induct)
  case (1 m)
  show ?case
  proof (cases "m div 2 = 0")
    case True
    with "1.prems" have "m = 1" by auto
    then show ?thesis by (simp add: bit_length.simps)
  next
    case False
    then have pos: "0 < m div 2" by simp
    have ih: "2 ^ (bit_length (m div 2) - 1) \<le> m div 2"
      using "1.IH" "1.prems" pos by simp
    have bl: "0 < bit_length (m div 2)"
      using pos by (subst bit_length.simps) simp
    have "bit_length m = Suc (bit_length (m div 2))"
      using "1.prems" by (subst bit_length.simps) simp
    then have "(2 :: nat) ^ (bit_length m - 1) = 2 * 2 ^ (bit_length (m div 2) - 1)"
      using bl by (cases "bit_length (m div 2)") simp_all
    also have "\<dots> \<le> 2 * (m div 2)" using ih by simp
    also have "\<dots> \<le> m" by simp
    finally show ?thesis .
  qed
qed

lemma round53_lower: 
  assumes "2 ^ 53 \<le> m" shows "2 ^ 53 \<le> round53 m"
proof (cases "bit_length m \<le> 53")
  case True
  then show ?thesis using assms by (simp add: round53_def)
next
  case False
  define e where "e = bit_length m - 54"
  have L: "bit_length m = e + 54" using False by (simp add: e_def)
  have u: "bit_length m - 53 = Suc e" using L by simp
  have pos: "0 < m" using assms by (simp add: less_le_trans [of 0 "2 ^ 53"]) 
  have "2 ^ (e + 53) \<le> m"
    using bit_length_lower [OF pos] L by (simp add: add.commute)
  then have "(2 :: nat) ^ (e + 53) div 2 ^ Suc e \<le> m div 2 ^ Suc e"
    by (rule div_le_mono)
  moreover have "(2 :: nat) ^ (e + 53) = 2 ^ 52 * 2 ^ Suc e"
    by (simp add: power_add)
  ultimately have q: "2 ^ 52 \<le> m div 2 ^ Suc e" by simp
  have "(2 :: nat) ^ 53 \<le> 2 ^ 52 * 2 ^ Suc e" by simp
  also have "\<dots> \<le> (m div 2 ^ Suc e) * 2 ^ Suc e"
    using q by (rule mult_le_mono1)
  finally have base: "2 ^ 53 \<le> (m div 2 ^ Suc e) * 2 ^ Suc e" .
  have "(m div 2 ^ Suc e) * 2 ^ Suc e \<le> round53 m"
    by (simp add: round53_def u Let_def)
  with base show ?thesis by (rule le_trans)
qed

lemma bigintToNum_lower:
  assumes "2 ^ 53 \<le> n" shows "2 ^ 53 \<le> bigintToNum (int n)"
proof -
  have "(2 :: int) ^ 53 \<le> int n" 
    using assms by (metis of_nat_le_iff of_nat_numeral of_nat_power)
  moreover have "(2 :: int) ^ 53 \<le> int (round53 n)"
    using round53_lower [OF assms] by (metis of_nat_le_iff of_nat_numeral of_nat_power)
  ultimately show ?thesis
    by (simp add: bigintToNum_def toNumber_def)
qed


lemma readBigInt_for_short:
  "i \<le> length s \<Longrightarrow> length s < n \<Longrightarrow> readBigInt_for i n s x = Throw TypeError"
proof (induction "length s - i" arbitrary: i x)
  case 0
  then have "i = length s" by simp
  then show ?case
    using "0.prems" by (subst readBigInt_for.simps) (simp add: index_def)
next
  case (Suc d)
  then have lt: "i < length s" by simp
  have "readBigInt_for (i + 1) n s (push_bit 8 x + uint (s ! i)) = Throw TypeError"
    using Suc.hyps(2) Suc.prems lt by (intro Suc.hyps(1)) simp_all
  then show ?case
    using Suc.prems lt by (subst readBigInt_for.simps) (simp add: index_def)
qed

lemma readBigInt_short: "length s < n \<Longrightarrow> readBigInt n s = Throw TypeError"
  by (simp add: readBigInt_def readBigInt_for_short)

lemma parseBigInt_short:
  assumes "w = 1 \<or> w = 2 \<or> w = 4 \<or> w = 8" and "mt < 8" and "length bs < w"
  shows "parseBigInt schema (head_byte mt (additional_info w v) # bs) = Throw TypeError"
proof -
  have ai: "additional_info w v < 32"
    using assms(1) by (auto simp: additional_info_def)
  have len: "band (Some (head_byte mt (additional_info w v))) 0x1f = additional_info w v"
    using assms(2) ai by (rule band_head_1f)
  have "2 ^ (additional_info w v - 24) = w" "24 \<le> additional_info w v" "additional_info w v \<le> 27"
    using assms(1) by (auto simp: additional_info_def)
  then show ?thesis
    using assms(3) by (simp add: parseBigInt_def len readBigInt_short)
qed

lemma truncated_take:
  assumes "length buf < n" and "length buf < 2 ^ 53"
  shows "slice2 buf 0 (bigintToNum (int n)) = buf \<and> slice1 buf (bigintToNum (int n)) = []"
proof (cases "n < 2 ^ 53")
  case True
  then show ?thesis
    using assms(1) by (simp add: bigintToNum_exact slice2_0 slice1_nonneg)
next
  case False
  then have big: "2 ^ 53 \<le> bigintToNum (int n)"
    by (intro bigintToNum_lower) simp
  have "int (length buf) < 2 ^ 53"
    using assms(2) by (metis of_nat_less_iff of_nat_numeral of_nat_power)
  with big have "0 \<le> bigintToNum (int n)" "length buf < nat (bigintToNum (int n))"
    by simp_all
  then show ?thesis
    by (simp add: slice2_0 slice1_nonneg)
qed

text \<open>
  C2, as the code has it. The reader never compares a length with the bytes that remain.
  When a definite-length byte string declares \<open>n\<close> bytes and fewer remain, decoding does
  not fail: it returns a \<open>bstr\<close> item holding just the bytes that remain and an empty
  rest. When the 1, 2, 4 or 8 bytes of the value of an unsigned integer are cut short,
  decoding fails with the \<open>TypeError\<close> that \<open>BigInt(undefined)\<close> raises; no error of its own
  marks a truncated stream.
\<close>

theorem truncated_input_is_not_detected:
  assumes "valid_width w n" and "length buf < n" and "length buf < 2 ^ 53"
    and "w' = 1 \<or> w' = 2 \<or> w' = 4 \<or> w' = 8" and "length bs < w'"
  shows "parse dec (Suc (Suc fuel)) buffer (encode_head 2 w n @ buf)
           = Return (I_bstr (Width w) buf, [])
         \<and> parse dec (Suc fuel) buffer (head_byte 0 (additional_info w' v) # bs)
           = Throw TypeError"
proof -
  have "parseByteString_schema (Suc fuel) T_bstr (encode_head 2 w n @ buf)
        = Return ((Width w, buf), [])"
    using truncated_take [OF assms(2,3)]
    by (simp add: parseByteString_schema_definite [OF assms(1)])
  then have first: "parse dec (Suc (Suc fuel)) buffer (encode_head 2 w n @ buf)
                    = Return (I_bstr (Width w) buf, [])"
    by (simp add: parse_bstr_head [OF assms(1)] parseByteString_def)
  have ai: "additional_info w' v < 32" "additional_info w' v div 16 = 1"
    using assms(4) by (auto simp: additional_info_def)
  have "band (Some (head_byte 0 (additional_info w' v))) 0xf0 = 16"
    using band_head_f0 [of 0 "additional_info w' v"] ai by simp
  then have "parse dec (Suc fuel) buffer (head_byte 0 (additional_info w' v) # bs)
             = Throw TypeError"
    using parseBigInt_short [OF assms(4) _ assms(5), of 0 T_uint v]
    by (simp add: parse.simps parseUInt_def)
  with first show ?thesis by simp
qed

theorem truncated_input_is_not_detected_witness:
  "valid_width 1 200 \<and> length [0x01 :: byte, 0x02] < 200 \<and> length [0x01 :: byte, 0x02] < 2 ^ 53
   \<and> length ([] :: byte list) < 2
   \<and> parse (id :: byte list \<Rightarrow> byte list) (Suc (Suc 0))
         [0x58, 0xc8, 0x01, 0x02]
         [0x58, 0xc8, 0x01, 0x02]
       = Return (I_bstr (Width 1) [0x01, 0x02], [])
   \<and> parse (id :: byte list \<Rightarrow> byte list) (Suc 0) [0x19] [0x19] = Throw TypeError"
proof -
  have h1: "valid_width 1 200" by (simp add: valid_width_def)
  have h2: "length [0x01 :: byte, 0x02] < 200" by simp
  have h3: "length [0x01 :: byte, 0x02] < 2 ^ 53" by simp
  have h4: "(2 :: nat) = 1 \<or> (2 :: nat) = 2 \<or> (2 :: nat) = 4 \<or> (2 :: nat) = 8" by simp
  have h5: "length ([] :: byte list) < 2" by simp
  have e1: "encode_head 2 1 200 = [0x58, 0xc8]"
    by (simp add: encode_head_def head_byte_def additional_info_def)
  have e2: "head_byte 0 (additional_info 2 0) = 0x19"
    by (simp add: head_byte_def additional_info_def)
  show ?thesis
    using h1
      truncated_input_is_not_detected [OF h1 h2 h3 h4 h5, where dec = id and fuel = 0
        and v = 0 and buffer = "[0x58, 0xc8, 0x01, 0x02]", unfolded e1 e2]
      truncated_input_is_not_detected [OF h1 h2 h3 h4 h5, where dec = id and fuel = 0
        and v = 0 and buffer = "[0x19]", unfolded e1 e2]
    by simp
qed

text \<open>
  The claim as stated fails on the 2-byte stream \<open>0x43 0x01\<close>, a byte string that declares
  three bytes and holds one: the call returns.
\<close>

theorem truncated_byte_string_counterexample:
  "parse (id :: byte list \<Rightarrow> byte list) (Suc (Suc 0)) [0x43, 0x01] [0x43, 0x01]
     = Return (I_bstr (Width 0) [0x01], [])"
  by (simp add: parse.simps parseByteString_schema.simps band_def parseByteString_def
        parseBigInt_def bigintToNum_def toNumber_def slice2_0 slice1_nonneg)

section \<open>Indefinite-length strings\<close>

lemma head_byte_not_break:
  assumes "mt < 8" and "ai < 28"
  shows "head_byte mt ai \<noteq> 0xff"
proof
  assume "head_byte mt ai = 0xff"
  then have "unat (head_byte mt ai) = 255" by simp
  moreover have "unat (head_byte mt ai) = mt * 32 + ai"
    using assms by (intro unat_head) simp_all
  ultimately show False using assms by simp
qed

lemma parseByteString_while_break:
  "parseByteString_while (Suc fuel) schema (0xff # rest) chunks sizes
   = Return ((Chunks sizes, concat chunks), 0xff # rest)"
  by (simp add: parseByteString_while.simps mergeChunks_concat)

lemma parseByteString_while_chunk:
  assumes "valid_chunk wc" and "mt < 8"
  shows "parseByteString_while (Suc (Suc fuel)) schema (encode_chunk mt wc @ s) chunks sizes
         = parseByteString_while (Suc fuel) schema s (chunks @ [snd wc]) (sizes @ [chunk_size wc])"
proof -
  have v: "valid_width (fst wc) (length (snd wc))" and l: "length (snd wc) < 2 ^ 53"
    using assms(1) by (simp_all add: valid_chunk_def)
  have nb: "head_byte mt (additional_info (fst wc) (length (snd wc))) \<noteq> 0xff"
    using assms(2) additional_info_less [OF v] by (rule head_byte_not_break)
  have chunk: "parseByteString_schema (Suc fuel) schema
                 (encode_head mt (fst wc) (length (snd wc)) @ snd wc @ s)
               = Return ((Width (fst wc), snd wc), s)"
    using v assms(2) l by (rule parseByteString_schema_exact) simp
  show ?thesis
    using nb
    by (subst parseByteString_while.simps) (simp add: encode_chunk_def chunk chunk_size_def)
qed

lemma parseByteString_while_chunks:
  assumes "\<forall>wc \<in> set cs. valid_chunk wc" and "mt < 8"
  shows "parseByteString_while (length cs + Suc fuel) schema
           (concat (map (encode_chunk mt) cs) @ s) chunks sizes
         = parseByteString_while (Suc fuel) schema s
             (chunks @ map snd cs) (sizes @ map chunk_size cs)"
  using assms(1)
proof (induction cs arbitrary: chunks sizes)
  case Nil
  then show ?case by simp
next
  case (Cons wc cs)
  have "parseByteString_while (Suc (Suc (length cs + fuel))) schema
          (encode_chunk mt wc @ concat (map (encode_chunk mt) cs) @ s) chunks sizes
        = parseByteString_while (Suc (length cs + fuel)) schema
            (concat (map (encode_chunk mt) cs) @ s) (chunks @ [snd wc]) (sizes @ [chunk_size wc])"
    using Cons.prems assms(2) by (intro parseByteString_while_chunk) simp_all
  then show ?case
    using Cons.IH [of "chunks @ [snd wc]" "sizes @ [chunk_size wc]"] Cons.prems by simp
qed

lemma parse_indefinite_bstr:
  "parse dec (Suc (Suc fuel)) buffer (0x5f # s)
   = then_do (parseByteString_while fuel T_bstr s [] [])
       (\<lambda>(bytes, stream'). Return (I_bstr (fst bytes) (snd bytes), stream'))"
  by (simp add: parse.simps parseByteString_schema.simps band_def parseByteString_def)

lemma parse_indefinite_tstr:
  "parse dec (Suc (Suc fuel)) buffer (0x7f # s)
   = then_do (parseByteString_while fuel T_tstr s [] [])
       (\<lambda>(bytes, stream'). Return (I_tstr (fst bytes) (dec (snd bytes)), stream'))"
  by (simp add: parse.simps parseByteString_schema.simps band_def parseTextString_def)

lemma sum_chunk_lengths: "length (concat (map snd cs)) = sum_list (map fst (map chunk_size cs))"
  by (induction cs) (simp_all add: chunk_size_def)

lemma then_do_Return_iff:
  "then_do a g = Return y \<longleftrightarrow> (\<exists>x. a = Return x \<and> g x = Return y)"
  by (cases a) simp_all

lemma error_not_Return [simp]: "error schema tag \<noteq> Return x"
  by (simp add: error_def split: option.splits)

lemma parseByteString_while_stops_at_break:
  "parseByteString_while fuel schema s chunks sizes = Return (r, rest)
   \<Longrightarrow> index rest 0 = Some 0xff"
proof (induction fuel arbitrary: s chunks sizes)
  case 0
  then show ?case by (simp add: parseByteString_while.simps)
next
  case (Suc fuel)
  show ?case
  proof (cases "index s 0 = Some 0xff")
    case True
    then show ?thesis
      using Suc.prems by (auto simp: parseByteString_while.simps then_do_Return_iff)
  next
    case False
    then obtain chunk s' where
      "parseByteString_while fuel schema s' (chunks @ [snd chunk])
         (sizes @ [(length (snd chunk), (case fst chunk of Chunks cs \<Rightarrow> 8 | Width w \<Rightarrow> w))])
       = Return (r, rest)"
      using Suc.prems by (auto simp: parseByteString_while.simps then_do_Return_iff)
    then show ?thesis by (rule Suc.IH)
  qed
qed

lemma parseByteString_schema_Chunks:
  assumes "parseByteString_schema fuel schema s = Return ((Chunks cs, b), rest)"
  shows "index rest 0 = Some 0xff \<and> (\<exists>fuel'. fuel = Suc fuel')"
proof (cases fuel)
  case 0
  then show ?thesis using assms by (simp add: parseByteString_schema.simps)
next
  case (Suc fuel')
  then have "parseByteString_while fuel' schema (slice1 s 1) [] [] = Return ((Chunks cs, b), rest)"
    using assms
    by (auto simp: parseByteString_schema.simps Let_def then_do_Return_iff split: if_splits)
  then show ?thesis
    using Suc by (simp add: parseByteString_while_stops_at_break)
qed

lemma parseByteString_while_nested:
  assumes inner: "parseByteString_schema fuel schema (h # t) = Return ((Chunks cs, b), rest)"
    and h: "h \<noteq> 0xff"
  shows "parseByteString_while (Suc fuel) schema (h # t) chunks sizes
         = Return ((Chunks (sizes @ [(length b, 8)]), concat chunks @ b), rest)"
proof -
  obtain fuel' where f: "fuel = Suc fuel'" and brk: "index rest 0 = Some 0xff"
    using parseByteString_schema_Chunks [OF inner] by auto
  have "parseByteString_while (Suc fuel') schema rest (chunks @ [b]) (sizes @ [(length b, 8)])
        = Return ((Chunks (sizes @ [(length b, 8)]), concat chunks @ b), rest)"
    using brk by (simp add: parseByteString_while.simps mergeChunks_concat)
  then show ?thesis
    using h inner f by (subst parseByteString_while.simps) simp
qed

text \<open>
  C6. An indefinite-length byte string made of definite-length chunks \<open>c1, ..., ck\<close>, each
  with a valid width and fewer than \<open>2 ^ 53\<close> bytes, and then a break byte, decodes to a
  \<open>bstr\<close> item whose buffer is \<open>c1 @ ... @ ck\<close> in order and whose size is the list of one
  (length, width) pair per chunk, in order; the length of the buffer is the sum of the
  recorded lengths. (The rest returned begins with the break byte.)
\<close>

theorem indefinite_byte_string_concatenates_chunks:
  assumes "\<forall>wc \<in> set cs. valid_chunk wc"
  shows "parse dec (Suc (Suc (length cs + Suc fuel))) buffer
           (0x5f # concat (map (encode_chunk 2) cs) @ 0xff # rest)
         = Return (I_bstr (Chunks (map chunk_size cs)) (concat (map snd cs)), 0xff # rest)
       \<and> length (map chunk_size cs) = length cs
       \<and> length (concat (map snd cs)) = sum_list (map fst (map chunk_size cs))"
  using parseByteString_while_chunks [OF assms, of 2 fuel T_bstr "0xff # rest" "[]" "[]"]
  by (simp add: parse_indefinite_bstr parseByteString_while_break sum_chunk_lengths)

theorem indefinite_byte_string_concatenates_chunks_witness:
  "valid_chunk (0, [0xaa]) \<and> valid_chunk (1, [0xbb, 0xcc]) \<and> valid_chunk (0, [0xdd])
   \<and> parse (id :: byte list \<Rightarrow> byte list) (Suc (Suc (3 + Suc 0)))
         [0x5f, 0x41, 0xaa, 0x58, 0x02, 0xbb, 0xcc, 0x41, 0xdd, 0xff, 0x07]
         [0x5f, 0x41, 0xaa, 0x58, 0x02, 0xbb, 0xcc, 0x41, 0xdd, 0xff, 0x07]
       = Return (I_bstr (Chunks [(1, 0), (2, 1), (1, 0)]) [0xaa, 0xbb, 0xcc, 0xdd], [0xff, 0x07])"
proof -
  have h: "\<forall>wc \<in> set [(0, [0xaa :: byte]), (1, [0xbb, 0xcc]), (0, [0xdd])]. valid_chunk wc"
    by (simp add: valid_chunk_def valid_width_def)
  have e: "concat (map (encode_chunk 2) [(0, [0xaa :: byte]), (1, [0xbb, 0xcc]), (0, [0xdd])])
           = [0x41, 0xaa, 0x58, 0x02, 0xbb, 0xcc, 0x41, 0xdd]"
    by (simp add: encode_chunk_def encode_head_def head_byte_def additional_info_def)
  show ?thesis
  proof (intro conjI)
    show "valid_chunk (0, [0xaa])" "valid_chunk (1, [0xbb, 0xcc])" "valid_chunk (0, [0xdd])"
      by (simp_all add: valid_chunk_def valid_width_def)
    show "parse (id :: byte list \<Rightarrow> byte list) (Suc (Suc (3 + Suc 0)))
          [0x5f, 0x41, 0xaa, 0x58, 0x02, 0xbb, 0xcc, 0x41, 0xdd, 0xff, 0x07]
            [0x5f, 0x41, 0xaa, 0x58, 0x02, 0xbb, 0xcc, 0x41, 0xdd, 0xff, 0x07]
          = Return (I_bstr (Chunks [(1, 0), (2, 1), (1, 0)]) [0xaa, 0xbb, 0xcc, 0xdd], [0xff, 0x07])"
      using indefinite_byte_string_concatenates_chunks [OF h, where dec = id and fuel = 0
          and buffer = "[0x5f, 0x41, 0xaa, 0x58, 0x02, 0xbb, 0xcc, 0x41, 0xdd, 0xff, 0x07]"
          and rest = "[0x07]", unfolded e]
      by (simp add: chunk_size_def eval_nat_numeral)
  qed
qed

text \<open>
  C4. Inside an indefinite-length byte or text string, possibly after definite-length
  chunks, a chunk that is itself decoded as an indefinite-length string (its size is a list)
  does not make the reader fail: the chunk is recorded as one entry, the length of its
  merged buffer with the width 8, its buffer is appended to the buffers before it, and the
  outer string is returned as a \<open>bstr\<close> or \<open>tstr\<close> item, with the rest the nested chunk
  left.
\<close>

theorem nested_indefinite_chunk_is_flattened:
  assumes "h \<noteq> 0xff" and "\<forall>wc \<in> set pre. valid_chunk wc"
  shows "(parseByteString_schema fuel T_bstr (h # t) = Return ((Chunks cs, b), rest) \<longrightarrow>
            parse dec (Suc (Suc (length pre + Suc fuel))) buffer
              (0x5f # concat (map (encode_chunk 2) pre) @ h # t)
            = Return (I_bstr (Chunks (map chunk_size pre @ [(length b, 8)]))
                        (concat (map snd pre) @ b), rest))
       \<and> (parseByteString_schema fuel T_tstr (h # t) = Return ((Chunks cs, b), rest) \<longrightarrow>
            parse dec (Suc (Suc (length pre + Suc fuel))) buffer
              (0x7f # concat (map (encode_chunk 3) pre) @ h # t)
            = Return (I_tstr (Chunks (map chunk_size pre @ [(length b, 8)]))
                        (dec (concat (map snd pre) @ b)), rest))"
proof (intro conjI impI)
  assume inner: "parseByteString_schema fuel T_bstr (h # t) = Return ((Chunks cs, b), rest)"
  show "parse dec (Suc (Suc (length pre + Suc fuel))) buffer
          (0x5f # concat (map (encode_chunk 2) pre) @ h # t)
        = Return (I_bstr (Chunks (map chunk_size pre @ [(length b, 8)]))
                    (concat (map snd pre) @ b), rest)"
    using parseByteString_while_chunks [OF assms(2), of 2 fuel T_bstr "h # t" "[]" "[]"]
    by (simp add: parse_indefinite_bstr parseByteString_while_nested [OF inner assms(1)])
next
  assume inner: "parseByteString_schema fuel T_tstr (h # t) = Return ((Chunks cs, b), rest)"
  show "parse dec (Suc (Suc (length pre + Suc fuel))) buffer
          (0x7f # concat (map (encode_chunk 3) pre) @ h # t)
        = Return (I_tstr (Chunks (map chunk_size pre @ [(length b, 8)]))
                    (dec (concat (map snd pre) @ b)), rest)"
    using parseByteString_while_chunks [OF assms(2), of 3 fuel T_tstr "h # t" "[]" "[]"]
    by (simp add: parse_indefinite_tstr parseByteString_while_nested [OF inner assms(1)])
qed

theorem nested_indefinite_chunk_is_flattened_witness:
  "(0x5f :: byte) \<noteq> 0xff \<and> valid_chunk (0, [0xbb])
   \<and> parseByteString_schema (Suc (Suc (Suc 0))) T_bstr [0x5f, 0x41, 0xaa, 0xff, 0x07]
       = Return ((Chunks [(1, 0)], [0xaa]), [0xff, 0x07])
   \<and> parseByteString_schema (Suc (Suc (Suc 0))) T_tstr [0x5f, 0x41, 0xaa, 0xff, 0x07]
       = Return ((Chunks [(1, 0)], [0xaa]), [0xff, 0x07])
   \<and> parse (id :: byte list \<Rightarrow> byte list) (Suc (Suc (1 + Suc (Suc (Suc (Suc 0))))))
         [0x5f, 0x41, 0xbb, 0x5f, 0x41, 0xaa, 0xff, 0x07]
         [0x5f, 0x41, 0xbb, 0x5f, 0x41, 0xaa, 0xff, 0x07]
       = Return (I_bstr (Chunks [(1, 0), (1, 8)]) [0xbb, 0xaa], [0xff, 0x07])
   \<and> parse (id :: byte list \<Rightarrow> byte list) (Suc (Suc (1 + Suc (Suc (Suc (Suc 0))))))
         [0x7f, 0x61, 0xbb, 0x5f, 0x41, 0xaa, 0xff, 0x07]
         [0x7f, 0x61, 0xbb, 0x5f, 0x41, 0xaa, 0xff, 0x07]
       = Return (I_tstr (Chunks [(1, 0), (1, 8)]) [0xbb, 0xaa], [0xff, 0x07])"
proof -
  have h1: "(0x5f :: byte) \<noteq> 0xff" by simp
  have h2: "\<forall>wc \<in> set [(0, [0xbb :: byte])]. valid_chunk wc"
    by (simp add: valid_chunk_def valid_width_def)
  have i1: "parseByteString_schema (Suc (Suc (Suc 0))) T_bstr [0x5f, 0x41, 0xaa, 0xff, 0x07]
            = Return ((Chunks [(1, 0)], [0xaa]), [0xff, 0x07])"
    by (simp add: parseByteString_schema.simps parseByteString_while.simps band_def
          parseBigInt_def bigintToNum_def toNumber_def slice2_0 slice1_nonneg mergeChunks_concat)
  have i2: "parseByteString_schema (Suc (Suc (Suc 0))) T_tstr [0x5f, 0x41, 0xaa, 0xff, 0x07]
            = Return ((Chunks [(1, 0)], [0xaa]), [0xff, 0x07])"
    by (simp add: parseByteString_schema.simps parseByteString_while.simps band_def
          parseBigInt_def bigintToNum_def toNumber_def slice2_0 slice1_nonneg mergeChunks_concat)
  have e2: "concat (map (encode_chunk 2) [(0, [0xbb :: byte])]) = [0x41, 0xbb]"
    by (simp add: encode_chunk_def encode_head_def head_byte_def additional_info_def)
  have e3: "concat (map (encode_chunk 3) [(0, [0xbb :: byte])]) = [0x61, 0xbb]"
    by (simp add: encode_chunk_def encode_head_def head_byte_def additional_info_def)
  show ?thesis
    using h2 i1 i2
      nested_indefinite_chunk_is_flattened [OF h1 h2, where fuel = "Suc (Suc (Suc 0))"
        and t = "[0x41, 0xaa, 0xff, 0x07]" and cs = "[(1, 0)]" and b = "[0xaa]"
        and rest = "[0xff, 0x07]" and dec = id
        and buffer = "[0x5f, 0x41, 0xbb, 0x5f, 0x41, 0xaa, 0xff, 0x07]", unfolded e2 e3]
      nested_indefinite_chunk_is_flattened [OF h1 h2, where fuel = "Suc (Suc (Suc 0))"
        and t = "[0x41, 0xaa, 0xff, 0x07]" and cs = "[(1, 0)]" and b = "[0xaa]"
        and rest = "[0xff, 0x07]" and dec = id
        and buffer = "[0x7f, 0x61, 0xbb, 0x5f, 0x41, 0xaa, 0xff, 0x07]", unfolded e2 e3]
    by (simp add: chunk_size_def)
qed

section \<open>A larger bound keeps the result; definite-length maps\<close>

lemma fuel_le_refl [simp]: "fuel_le r r"
  by (simp add: fuel_le_def)

lemma fuel_le_OutOfFuel [simp]: "fuel_le OutOfFuel r"
  by (simp add: fuel_le_def)

lemma fuel_le_then_do:
  "fuel_le a a' \<Longrightarrow> (\<And>x. fuel_le (g x) (g' x)) \<Longrightarrow> fuel_le (then_do a g) (then_do a' g')"
  by (cases a) (auto simp: fuel_le_def)

lemma fuel_le_Return: "fuel_le r r' \<Longrightarrow> r = Return x \<Longrightarrow> r' = Return x"
  by (auto simp: fuel_le_def)

lemma parseByteString_schema_mono:
  "f \<le> f' \<Longrightarrow>
   fuel_le (parseByteString_schema f sc s) (parseByteString_schema f' sc s)
   \<and> fuel_le (parseByteString_while f sc s ch sz) (parseByteString_while f' sc s ch sz)"
proof (induction f arbitrary: f' s ch sz)
  case 0
  show ?case by (simp add: parseByteString_schema.simps parseByteString_while.simps)
next
  case (Suc f)
  then obtain g where g: "f' = Suc g" "f \<le> g"
    by (cases f') simp_all
  note ih = Suc.IH [OF g(2)]
  have a: "fuel_le (parseByteString_schema (Suc f) sc s) (parseByteString_schema (Suc g) sc s)"
    by (simp add: parseByteString_schema.simps Let_def ih)
  have b: "fuel_le (parseByteString_while (Suc f) sc s ch sz)
             (parseByteString_while (Suc g) sc s ch sz)"
    by (auto simp: parseByteString_while.simps ih split_beta intro!: fuel_le_then_do)
  from a b show ?case unfolding g(1) ..
qed

lemma parseByteString_mono:
  "f \<le> f' \<Longrightarrow> fuel_le (parseByteString f s) (parseByteString f' s)"
  by (auto simp: parseByteString_def parseByteString_schema_mono intro!: fuel_le_then_do)

lemma parseTextString_mono:
  "f \<le> f' \<Longrightarrow> fuel_le (parseTextString dec f s) (parseTextString dec f' s)"
  by (auto simp: parseTextString_def parseByteString_schema_mono intro!: fuel_le_then_do)

lemma parse_mono_all:
  "f \<le> f' \<Longrightarrow>
   (\<forall>b s. fuel_le (parse dec f b s) (parse dec f' b s))
   \<and> (\<forall>s. fuel_le (parseArray dec f s) (parseArray dec f' s))
   \<and> (\<forall>s a. fuel_le (parseArray_while dec f s a) (parseArray_while dec f' s a))
   \<and> (\<forall>i n s a. fuel_le (parseArray_for dec f i n s a) (parseArray_for dec f' i n s a))
   \<and> (\<forall>s. fuel_le (parseMap dec f s) (parseMap dec f' s))
   \<and> (\<forall>s a. fuel_le (parseMap_while dec f s a) (parseMap_while dec f' s a))
   \<and> (\<forall>i n s a. fuel_le (parseMap_for dec f i n s a) (parseMap_for dec f' i n s a))
   \<and> (\<forall>s. fuel_le (parseTagged dec f s) (parseTagged dec f' s))"
proof (induction f arbitrary: f')
  case 0
  show ?case
    by (simp add: parse.simps parseArray.simps parseArray_while.simps parseArray_for.simps
          parseMap.simps parseMap_while.simps parseMap_for.simps parseTagged.simps)
next
  case (Suc f)
  then obtain g where g: "f' = Suc g" "f \<le> g"
    by (cases f') simp_all
  have p: "\<And>b s. fuel_le (parse dec f b s) (parse dec g b s)"
    and pa: "\<And>s. fuel_le (parseArray dec f s) (parseArray dec g s)"
    and paw: "\<And>s a. fuel_le (parseArray_while dec f s a) (parseArray_while dec g s a)"
    and paf: "\<And>i n s a. fuel_le (parseArray_for dec f i n s a) (parseArray_for dec g i n s a)"
    and pm: "\<And>s. fuel_le (parseMap dec f s) (parseMap dec g s)"
    and pmw: "\<And>s a. fuel_le (parseMap_while dec f s a) (parseMap_while dec g s a)"
    and pmf: "\<And>i n s a. fuel_le (parseMap_for dec f i n s a) (parseMap_for dec g i n s a)"
    and pt: "\<And>s. fuel_le (parseTagged dec f s) (parseTagged dec g s)"
    using Suc.IH [OF g(2)] by simp_all
  have 1: "fuel_le (parse dec (Suc f) b s) (parse dec (Suc g) b s)" for b s
    by (simp add: parse.simps Let_def parseByteString_mono [OF g(2)]
          parseTextString_mono [OF g(2)] pa pm pt)
  have 2: "fuel_le (parseArray dec (Suc f) s) (parseArray dec (Suc g) s)" for s
    by (auto simp: parseArray.simps Let_def split_beta paw paf intro!: fuel_le_then_do)
  have 3: "fuel_le (parseArray_while dec (Suc f) s a) (parseArray_while dec (Suc g) s a)" for s a
    by (auto simp: parseArray_while.simps split_beta p paw intro!: fuel_le_then_do)
  have 4: "fuel_le (parseArray_for dec (Suc f) i n s a) (parseArray_for dec (Suc g) i n s a)"
    for i n s a
    by (auto simp: parseArray_for.simps split_beta p paf intro!: fuel_le_then_do)
  have 5: "fuel_le (parseMap dec (Suc f) s) (parseMap dec (Suc g) s)" for s
    by (auto simp: parseMap.simps Let_def split_beta pmw pmf intro!: fuel_le_then_do)
  have 6: "fuel_le (parseMap_while dec (Suc f) s a) (parseMap_while dec (Suc g) s a)" for s a
    by (auto simp: parseMap_while.simps split_beta p pmw intro!: fuel_le_then_do)
  have 7: "fuel_le (parseMap_for dec (Suc f) i n s a) (parseMap_for dec (Suc g) i n s a)"
    for i n s a
    by (auto simp: parseMap_for.simps split_beta p pmf intro!: fuel_le_then_do)
  have 8: "fuel_le (parseTagged dec (Suc f) s) (parseTagged dec (Suc g) s)" for s
    by (auto simp: parseTagged.simps Let_def split_beta p intro!: fuel_le_then_do)
  from 1 2 3 4 5 6 7 8 show ?case unfolding g(1) by blast
qed

lemma parse_mono:
  assumes "parse dec f buffer s = Return x" and "f \<le> f'"
  shows "parse dec f' buffer s = Return x"
proof -
  have "fuel_le (parse dec f buffer s) (parse dec f' buffer s)"
    using parse_mono_all [OF assms(2), of dec] by simp
  then show ?thesis using assms(1) by (rule fuel_le_Return)
qed

lemma decodes_pairs_mono:
  "decodes_pairs dec f s kvs s' \<Longrightarrow> f \<le> f' \<Longrightarrow> decodes_pairs dec f' s kvs s'"
  by (induction rule: decodes_pairs.induct)
     (auto intro: decodes_pairs.intros parse_mono)

lemma toNumber_Suc: "i < n \<Longrightarrow> n < 2 ^ 53 \<Longrightarrow> toNumber (int i + 1) = int (Suc i)"
proof -
  assume "i < n" "n < 2 ^ 53"
  then have "Suc i < 2 ^ 53" by simp
  then have "int (Suc i) < 2 ^ 53"
    by (metis of_nat_less_iff of_nat_numeral of_nat_power)
  then show ?thesis by (simp add: toNumber_exact)
qed

lemma parseMap_for_pairs:
  assumes "decodes_pairs dec f s kvs s'" and "i + length kvs = n" and "n < 2 ^ 53"
  shows "parseMap_for dec (Suc (f + length kvs + fuel)) (int i) (int n) s acc
         = Return (acc @ kvs, s')"
  using assms(1,2)
proof (induction arbitrary: i acc rule: decodes_pairs.induct)
  case (decodes_pairs_Nil s)
  then show ?case by (simp add: parseMap_for.simps)
next
  case (decodes_pairs_Cons s key sk val sv kvs rest)
  have lt: "i < n" using decodes_pairs_Cons.prems by simp
  have k: "parse dec (f + Suc (length kvs) + fuel) s s = Return (key, sk)"
    using decodes_pairs_Cons.hyps(1) by (rule parse_mono) simp
  have v: "parse dec (f + Suc (length kvs) + fuel) sk sk = Return (val, sv)"
    using decodes_pairs_Cons.hyps(2) by (rule parse_mono) simp
  have "parseMap_for dec (Suc (f + length kvs + fuel)) (int (Suc i)) (int n) sv (acc @ [(key, val)])
        = Return ((acc @ [(key, val)]) @ kvs, rest)"
    using decodes_pairs_Cons.prems by (intro decodes_pairs_Cons.IH) simp
  then show ?case
    using lt k v by (simp add: parseMap_for.simps toNumber_Suc [OF lt assms(3)])
qed

lemma parse_map_head:
  assumes "valid_width w n"
  shows "parse dec (Suc fuel) buffer (encode_head 5 w n @ s)
         = parseMap dec fuel (encode_head 5 w n @ s)"
  using hi_nibble_head [OF assms, of 5] by (auto simp: parse.simps Let_def)

text \<open>
  When the bytes after the head of a definite-length map with declared count \<open>n\<close> (below
  \<open>2 ^ 53\<close>) are such that \<open>n\<close> key/value pairs decode from them one after the other, the
  map decodes to exactly these pairs in the order met in the stream: nothing is sorted and
  no key is dropped.
\<close>

lemma parse_map_of_decoded_pairs:
  assumes "valid_width w n" and "n < 2 ^ 53"
    and "decodes_pairs dec f s kvs s'" and "length kvs = n"
  shows "parse dec (Suc (Suc (Suc (f + n + fuel)))) buffer (encode_head 5 w n @ s)
         = Return (I_map (Some w) kvs, s')"
proof -
  have loop: "parseMap_for dec (Suc (f + length kvs + fuel)) (int 0) (int n) s []
              = Return ([] @ kvs, s')"
    using assms(3) _ assms(2) by (rule parseMap_for_pairs) (simp add: assms(4))
  have low: "band (Some (head_byte 5 (additional_info w n))) 0x1f = additional_info w n"
    using assms(1) by (intro low_bits_head) simp_all
  show ?thesis
    using loop additional_info_less [OF assms(1)]
    by (simp add: parse_map_head [OF assms(1)] parseMap.simps low Let_def assms(4)
          parseBigInt_encode_head [OF assms(1)] bigintToNum_exact [OF assms(2)])
qed

lemma parse_map_of_three_pairs:
  "valid_width 0 3 \<and> (3 :: nat) < 2 ^ 53
   \<and> decodes_pairs (id :: byte list \<Rightarrow> byte list) (Suc 0) [0x05, 0x00, 0x01, 0x07, 0x05, 0x09]
       [(I_uint 0 5, I_uint 0 0), (I_uint 0 1, I_uint 0 7), (I_uint 0 5, I_uint 0 9)] []
   \<and> parse (id :: byte list \<Rightarrow> byte list) (Suc (Suc (Suc (Suc 0 + 3 + 0))))
         [0xa3, 0x05, 0x00, 0x01, 0x07, 0x05, 0x09]
         [0xa3, 0x05, 0x00, 0x01, 0x07, 0x05, 0x09]
       = Return (I_map (Some 0)
                   [(I_uint 0 5, I_uint 0 0), (I_uint 0 1, I_uint 0 7), (I_uint 0 5, I_uint 0 9)], [])"
proof -
  have h1: "valid_width 0 3" by (simp add: valid_width_def)
  have h2: "(3 :: nat) < 2 ^ 53" by simp
  have uint: "parse (id :: byte list \<Rightarrow> byte list) (Suc 0)
                (encode_head 0 0 v @ s) (encode_head 0 0 v @ s)
              = Return (I_uint 0 (int v), s)" if "v < 24" for v s
    using that by (intro parse_uint_head) (simp add: valid_width_def)
  have e: "encode_head 0 0 5 = [0x05]" "encode_head 0 0 0 = [0x00]" "encode_head 0 0 1 = [0x01]"
    "encode_head 0 0 7 = [0x07]" "encode_head 0 0 9 = [0x09]"
    by (simp_all add: encode_head_def head_byte_def additional_info_def)
  have d0: "decodes_pairs (id :: byte list \<Rightarrow> byte list) (Suc 0) [] [] []"
    by (rule decodes_pairs_Nil)
  have d1: "decodes_pairs (id :: byte list \<Rightarrow> byte list) (Suc 0) [0x05, 0x09]
              [(I_uint 0 5, I_uint 0 9)] []"
    using uint [of 5 "[0x09]"] uint [of 9 "[]"] d0
    unfolding e by (simp add: decodes_pairs_Cons)
  have d2: "decodes_pairs (id :: byte list \<Rightarrow> byte list) (Suc 0) [0x01, 0x07, 0x05, 0x09]
              [(I_uint 0 1, I_uint 0 7), (I_uint 0 5, I_uint 0 9)] []"
    using uint [of 1 "[0x07, 0x05, 0x09]"] uint [of 7 "[0x05, 0x09]"] d1
    unfolding e by (simp add: decodes_pairs_Cons)
  have h3: "decodes_pairs (id :: byte list \<Rightarrow> byte list) (Suc 0)
              [0x05, 0x00, 0x01, 0x07, 0x05, 0x09]
              [(I_uint 0 5, I_uint 0 0), (I_uint 0 1, I_uint 0 7), (I_uint 0 5, I_uint 0 9)] []"
    using uint [of 5 "[0x00, 0x01, 0x07, 0x05, 0x09]"] uint [of 0 "[0x01, 0x07, 0x05, 0x09]"] d2
    unfolding e by (simp add: decodes_pairs_Cons)
  have h4: "length [(I_uint 0 5 :: byte list CBORItem, I_uint 0 0 :: byte list CBORItem),
              (I_uint 0 1, I_uint 0 7), (I_uint 0 5, I_uint 0 9)] = 3"
    by simp
  have e5: "encode_head 5 0 3 = [0xa3]"
    by (simp add: encode_head_def head_byte_def additional_info_def)
  show ?thesis
    using h1 h2 h3
      parse_map_of_decoded_pairs [OF h1 h2 h3 h4, where fuel = 0
        and buffer = "[0xa3, 0x05, 0x00, 0x01, 0x07, 0x05, 0x09]", unfolded e5]
    by simp
qed

text \<open>
  C8. Not every definite-length map decodes to its pairs. The map with the one entry whose
  key is the indefinite-length array holding 1 and whose value is 2 is encoded as
  \<open>0xa1 0x9f 0x01 0xff 0x02\<close>. Decoding the key returns the array and leaves the break byte
  \<open>0xff\<close> in front of the value, so decoding the value throws "Unknown type byte: ff" and
  no map item with one pair is returned.
\<close>

theorem definite_map_with_indefinite_key_throws:
  "parse dec (Suc (Suc (Suc (Suc fuel)))) buffer [0x9f, 0x01, 0xff, 0x02]
     = Return (I_array None [I_uint 0 1], [0xff, 0x02])
   \<and> parse dec (Suc (Suc (Suc (Suc (Suc (Suc (Suc fuel))))))) buffer [0xa1, 0x9f, 0x01, 0xff, 0x02]
     = Throw (Unknown_type_byte 0xff)"
  by (simp add: parse.simps parseArray.simps parseArray_while.simps parseMap.simps
        parseMap_for.simps parseUInt_def band_def parseBigInt_def bigintToNum_def
        toNumber_def unknown_type_byte_def)

end
